theory Spec2Isabelle
  imports Main "HOL-Library.Monad_Syntax"
begin

section \<open>Text written by the stream insertion operators\<close>

text \<open>
  Both programs write integers with \<open>operator<<\<close> on a stream in its default state:
  base ten, no padding, no digit grouping (the "C" locale), a leading minus sign for a
  negative value. Text is a \<open>string\<close>, that is a list of bytes, as \<open>std::string\<close> is.
\<close>

definition newline :: char where
  "newline = CHR 0x0A"

definition digit_char :: "nat \<Rightarrow> char" where
  "digit_char d = ''0123456789'' ! d"

function show_nat :: "nat \<Rightarrow> string" where
  "show_nat n = (if n < 10 then [digit_char n] else show_nat (n div 10) @ [digit_char (n mod 10)])"
  by pat_completeness auto
termination
  by (relation "measure (\<lambda>n. n)") auto

declare show_nat.simps [simp del]

definition show_int :: "int \<Rightarrow> string" where
  "show_int i = (if i < 0 then CHR ''-'' # show_nat (nat (- i)) else show_nat (nat i))"

section \<open>The analyzer: LogFileAnalyzer.cpp\<close>

text \<open>
  What \<open>main\<close> does to the outside world is a list of events in program order: text
  sent to \<open>std::cout\<close>, text sent to \<open>std::cerr\<close>, the construction of an
  \<open>std::ifstream\<close> on a path, and each successful \<open>std::getline\<close> with the line it
  stored in \<open>currentLine\<close>. \<open>std::endl\<close> is the newline character (the flush is not
  observable here).
\<close>

datatype event =
    Cout string
  | Cerr string
  | Open string
  | Getline string

text \<open>
  The file system as \<open>std::ifstream\<close> sees it: a path either cannot be opened
  (\<open>is_open()\<close> is false) or gives the bytes the stream will deliver.
\<close>

type_synonym filesystem = "string \<Rightarrow> string option"

text \<open>
  \<open>std::getline(logFile, currentLine)\<close> on the bytes still unread. At end of file
  nothing is extracted, the fail bit is set and the stream tests false. Otherwise the
  bytes before the next newline are stored (all remaining bytes when there is none) and
  the newline itself is consumed.
\<close>

definition getline :: "string \<Rightarrow> (string \<times> string) option" where
  "getline s =
     (if s = [] then None
      else Some (takeWhile (\<lambda>c. c \<noteq> newline) s, drop 1 (dropWhile (\<lambda>c. c \<noteq> newline) s)))"

text \<open>
  The \<open>while (std::getline(logFile, currentLine)) { lineCounter++; }\<close> loop, from the
  unread bytes and the current \<open>lineCounter\<close>: the final counter and the reads made.
  \<open>lineCounter\<close> is a \<open>long long\<close>; it counts at most one line per byte of the file,
  so it stays below \<open>2^63\<close> for every file a 64-bit offset can address, and is an
  unbounded integer here.
\<close>

function read_loop :: "string \<Rightarrow> int \<Rightarrow> int \<times> event list" where
  "read_loop s lineCounter =
     (case getline s of
        None \<Rightarrow> (lineCounter, [])
      | Some (currentLine, s') \<Rightarrow>
          (let (n, evs) = read_loop s' (lineCounter + 1) in (n, Getline currentLine # evs)))"
  by pat_completeness auto
termination
proof (relation "measure (\<lambda>(s, n). length s)")
  show "wf (measure (\<lambda>(s, n :: int). length (s :: string)))" by simp
next
  fix s :: string and lineCounter :: int and x2 currentLine s'
  assume "getline s = Some x2" and "(currentLine, s') = x2"
  then have ne: "s \<noteq> []" and s': "s' = drop 1 (dropWhile (\<lambda>c. c \<noteq> newline) s)"
    by (auto simp: getline_def split: if_splits)
  have "length (dropWhile (\<lambda>c. c \<noteq> newline) s) \<le> length s"
    by (rule length_dropWhile_le)
  with ne s' have "length s' < length s"
    by (cases "dropWhile (\<lambda>c. c \<noteq> newline) s") auto
  then show "((s', lineCounter + 1), s, lineCounter) \<in> measure (\<lambda>(s, n). length s)"
    by simp
qed

declare read_loop.simps [simp del]

text \<open>The lines \<open>std::getline\<close> yields from a file, in order, until it fails.\<close>

function getline_all :: "string \<Rightarrow> string list" where
  "getline_all s = (case getline s of None \<Rightarrow> [] | Some (l, s') \<Rightarrow> l # getline_all s')"
  by pat_completeness auto
termination
proof (relation "measure length")
  show "wf (measure (length :: string \<Rightarrow> nat))" by simp
next
  fix s :: string and x2 l s'
  assume "getline s = Some x2" and "(l, s') = x2"
  then have ne: "s \<noteq> []" and s': "s' = drop 1 (dropWhile (\<lambda>c. c \<noteq> newline) s)"
    by (auto simp: getline_def split: if_splits)
  have "length (dropWhile (\<lambda>c. c \<noteq> newline) s) \<le> length s"
    by (rule length_dropWhile_le)
  with ne s' have "length s' < length s"
    by (cases "dropWhile (\<lambda>c. c \<noteq> newline) s") auto
  then show "(s', s) \<in> measure length" by simp
qed

declare getline_all.simps [simp del]

text \<open>
  \<open>main(argc, argv)\<close>. The program name \<open>argv[0]\<close> and the remaining arguments are
  separate parameters (the source: "The first argument (argv[0]) is always the name of
  the program itself"), so \<open>argc\<close> is one more than the number of remaining arguments.
  The result is the event list and the exit code.
\<close>

definition banner :: "string \<Rightarrow> event list" where
  "banner logFilePath =
     [Cout (''Initializing Log File Analyzer...'' @ [newline]),
      Cout (''------------------------------------'' @ [newline]),
      Cout (''Target log file: '' @ logFilePath @ [newline])]"

definition analyzer_main :: "filesystem \<Rightarrow> string \<Rightarrow> string list \<Rightarrow> event list \<times> int" where
  "analyzer_main fs argv0 args =
     (let argc = 1 + int (length args) in
      if argc \<noteq> 2 then
        ([Cerr (''Error: Incorrect number of arguments.'' @ [newline]),
          Cerr (''Usage: '' @ argv0 @ '' <path_to_log_file>'' @ [newline])], 1)
      else
        let logFilePath = hd args in
        case fs logFilePath of
          None \<Rightarrow>
            (banner logFilePath @ [Open logFilePath] @
             [Cerr (''Fatal Error: Could not open the log file at: '' @ logFilePath @ [newline])], 1)
        | Some content \<Rightarrow>
            (let (lineCounter, reads) = read_loop content 0 in
             (banner logFilePath @ [Open logFilePath] @
              [Cout (''File opened successfully. Starting analysis...'' @ [newline])] @
              reads @
              [Cout (''Analysis finished.'' @ [newline]),
               Cout (''Total lines processed: '' @ show_int lineCounter @ [newline]),
               Cout (''------------------------------------'' @ [newline])], 0)))"

text \<open>Projections of a run: the text on each stream, the paths opened, the lines read.\<close>

fun cout_text :: "event list \<Rightarrow> string" where
  "cout_text [] = []"
| "cout_text (Cout s # es) = s @ cout_text es"
| "cout_text (e # es) = cout_text es"

fun cerr_text :: "event list \<Rightarrow> string" where
  "cerr_text [] = []"
| "cerr_text (Cerr s # es) = s @ cerr_text es"
| "cerr_text (e # es) = cerr_text es"

fun opened_paths :: "event list \<Rightarrow> string list" where
  "opened_paths [] = []"
| "opened_paths (Open p # es) = p # opened_paths es"
| "opened_paths (e # es) = opened_paths es"

fun lines_read :: "event list \<Rightarrow> string list" where
  "lines_read [] = []"
| "lines_read (Getline l # es) = l # lines_read es"
| "lines_read (e # es) = lines_read es"

section \<open>The generator: LogGenerator.cpp\<close>

text \<open>
  The standard library's random facilities are not part of the repository, so they are
  parameters of the model. The engine (\<open>std::mt19937\<close>, seeded from the clock) is a
  state of any type \<open>'g\<close>. Calling a distribution object on the engine gives the drawn
  value and the advanced engine:
  \<^item> \<open>uniform_int a b\<close> is \<open>std::uniform_int_distribution<>(a, b)\<close>;
  \<^item> \<open>uniform_real_hundredths a b\<close> is \<open>std::uniform_real_distribution<>(a, b)\<close> as
    the program observes it. The drawn \<open>double\<close> is only ever written through
    \<open>std::fixed << std::setprecision(2)\<close>, which prints the value rounded to two
    decimals; the draw is that non-negative number of hundredths.
\<close>

record 'g stdlib =
  uniform_int :: "int \<Rightarrow> int \<Rightarrow> 'g \<Rightarrow> int \<times> 'g"
  uniform_real_hundredths :: "int \<Rightarrow> int \<Rightarrow> 'g \<Rightarrow> nat \<times> 'g"

text \<open>
  The library's contract for the integer distribution: with \<open>a \<le> b\<close> the value drawn
  lies in the closed interval from \<open>a\<close> to \<open>b\<close>.
\<close>

definition uniform_int_in_range :: "'g stdlib \<Rightarrow> bool" where
  "uniform_int_in_range L \<longleftrightarrow>
     (\<forall>a b g. a \<le> b \<longrightarrow> a \<le> fst (uniform_int L a b g) \<and> fst (uniform_int L a b g) \<le> b)"

text \<open>A \<open>double\<close> written with \<open>std::fixed << std::setprecision(2)\<close>, from its hundredths.\<close>

definition show_fixed2 :: "nat \<Rightarrow> string" where
  "show_fixed2 h = show_nat (h div 100) @ ''.'' @ [digit_char (h mod 100 div 10), digit_char (h mod 10)]"

text \<open>
  \<open>getRandomElement(vec, gen)\<close>: an index drawn between 0 and \<open>vec.size() - 1\<close>, then
  \<open>vec[index]\<close>. Indexing outside the vector is undefined behaviour in C++; here it is
  the result \<open>None\<close>.
\<close>

definition getRandomElement :: "'g stdlib \<Rightarrow> 'a list \<Rightarrow> 'g \<Rightarrow> ('a \<times> 'g) option" where
  "getRandomElement L vec gen =
     (let (i, gen') = uniform_int L 0 (int (length vec) - 1) gen in
      if 0 \<le> i \<and> i < int (length vec) then Some (vec ! nat i, gen') else None)"

text \<open>The configuration and the data pools of \<open>main\<close>.\<close>

definition numberOfLinesToGenerate :: nat where
  "numberOfLinesToGenerate = 100000"

definition outputFilename :: string where
  "outputFilename = ''sample.log''"

definition ip_addresses :: "string list" where
  "ip_addresses = [''203.0.113.89'', ''198.51.100.2'', ''192.168.1.10'', ''10.0.0.5'',
                   ''172.16.31.45'', ''10.10.10.10'']"

definition user_ids :: "string list" where
  "user_ids = [''user_alpha'', ''user_beta'', ''quant_gamma'', ''trader_delta'',
               ''risk_epsilon'', ''admin_zeta'']"

definition actions :: "string list" where
  "actions = [''LOGIN'', ''LOGOUT'', ''TRADE_EXECUTE'', ''DATA_QUERY'', ''ORDER_CANCEL'',
              ''FAILED_LOGIN'']"

definition statuses :: "string list" where
  "statuses = [''SUCCESS'', ''FAILURE'', ''PENDING'']"

definition trade_symbols :: "string list" where
  "trade_symbols = [''AAPL'', ''GOOG'', ''MSFT'', ''AMZN'', ''TSLA'', ''NVDA'']"

definition startTimestamp_init :: int where
  "startTimestamp_init = 1672531200"

text \<open>
  The status of a line: forced to \<open>FAILURE\<close> for a \<open>FAILED_LOGIN\<close> (no draw is made
  then), drawn from \<open>statuses\<close> otherwise.
\<close>

definition pick_status :: "'g stdlib \<Rightarrow> string \<Rightarrow> 'g \<Rightarrow> (string \<times> 'g) option" where
  "pick_status L action gen =
     (if action = ''FAILED_LOGIN'' then Some (''FAILURE'', gen)
      else getRandomElement L statuses gen)"

text \<open>
  The details written after the sixth \<open>|\<close>, by action. The three draws of a
  \<open>TRADE_EXECUTE\<close> are made left to right along the chain of \<open><<\<close>.
\<close>

definition write_details :: "'g stdlib \<Rightarrow> string \<Rightarrow> 'g \<Rightarrow> (string \<times> 'g) option" where
  "write_details L action gen =
     (if action = ''TRADE_EXECUTE'' then
        do {
          (symbol, gen1) \<leftarrow> getRandomElement L trade_symbols gen;
          let (quantity, gen2) = uniform_int L 10 500 gen1;
          let (price, gen3) = uniform_real_hundredths L 100 5000 gen2;
          Some (''Symbol:'' @ symbol @ '',Quantity:'' @ show_int quantity @
                '',Price:'' @ show_fixed2 price, gen3)
        }
      else if action = ''FAILED_LOGIN'' then Some (''ErrorCode:401_UNAUTHORIZED'', gen)
      else Some (''Details:N/A'', gen))"

text \<open>
  One iteration of the \<open>for\<close> loop, from the current \<open>startTimestamp\<close> and engine: the
  advanced timestamp, the text appended to the output file (one line and its newline)
  and the advanced engine. \<open>startTimestamp\<close> is a \<open>long long\<close> that grows by at most 5
  in each of the 100000 iterations, far from \<open>2^63\<close>, and is an unbounded integer here.
\<close>

definition loop_body :: "'g stdlib \<Rightarrow> int \<Rightarrow> 'g \<Rightarrow> (int \<times> string \<times> 'g) option" where
  "loop_body L startTimestamp0 gen0 =
     (let (increment, gen1) = uniform_int L 1 5 gen0;
          startTimestamp = startTimestamp0 + increment
      in do {
        (ip, gen2) \<leftarrow> getRandomElement L ip_addresses gen1;
        (user, gen3) \<leftarrow> getRandomElement L user_ids gen2;
        (action, gen4) \<leftarrow> getRandomElement L actions gen3;
        (status, gen5) \<leftarrow> pick_status L action gen4;
        let (latency, gen6) = uniform_int L 5 250 gen5;
        (details, gen7) \<leftarrow> write_details L action gen6;
        Some (startTimestamp,
              show_int startTimestamp @ ''|'' @ ip @ ''|'' @ user @ ''|'' @ action @ ''|'' @
              status @ ''|'' @ show_int latency @ ''ms|'' @ details @ [newline],
              gen7)
      })"

text \<open>
  The \<open>for\<close> loop with \<open>k\<close> iterations left, threading \<open>startTimestamp\<close>, the bytes
  written to the file so far and the engine.
\<close>

fun for_loop :: "'g stdlib \<Rightarrow> nat \<Rightarrow> int \<Rightarrow> string \<Rightarrow> 'g \<Rightarrow> (int \<times> string \<times> 'g) option" where
  "for_loop L 0 startTimestamp file gen = Some (startTimestamp, file, gen)"
| "for_loop L (Suc k) startTimestamp file gen =
     (case loop_body L startTimestamp gen of
        None \<Rightarrow> None
      | Some (startTimestamp', text, gen') \<Rightarrow> for_loop L k startTimestamp' (file @ text) gen')"

text \<open>
  A run of the generator: the exit code, the bytes of \<open>sample.log\<close> (when it could be
  opened) and the text on the two console streams. \<open>generator_run\<close> is \<open>main\<close> with
  the number of lines as a parameter; \<open>generator_main\<close> is \<open>main\<close> itself. The
  parameters are the library, whether the output file opens, and the seeded engine.
\<close>

record gen_run =
  gen_exit :: int
  gen_file :: "string option"
  gen_cout :: string
  gen_cerr :: string

definition generator_run :: "'g stdlib \<Rightarrow> nat \<Rightarrow> bool \<Rightarrow> 'g \<Rightarrow> gen_run option" where
  "generator_run L n opens random_engine =
     (if \<not> opens then
        Some \<lparr>gen_exit = 1, gen_file = None, gen_cout = [],
              gen_cerr = ''Error: Could not open file for writing: '' @ outputFilename @ [newline]\<rparr>
      else
        case for_loop L n startTimestamp_init [] random_engine of
          None \<Rightarrow> None
        | Some (startTimestamp, file, gen) \<Rightarrow>
            Some \<lparr>gen_exit = 0, gen_file = Some file,
                  gen_cout = ''Successfully generated '' @ show_int (int n) @ '' lines in '' @
                             [CHR 0x27] @ outputFilename @ [CHR 0x27] @ [newline],
                  gen_cerr = []\<rparr>)"

definition generator_main :: "'g stdlib \<Rightarrow> bool \<Rightarrow> 'g \<Rightarrow> gen_run option" where
  "generator_main L = generator_run L numberOfLinesToGenerate"

text \<open>
  A small deterministic library for running the model on concrete inputs: the engine is
  a tape of numbers, and a draw maps the next number of the tape into the interval.
\<close>

definition tape_lib :: "(nat list) stdlib" where
  "tape_lib =
     \<lparr>uniform_int = (\<lambda>a b g. case g of [] \<Rightarrow> (a, []) | r # g' \<Rightarrow> (a + int r mod (b - a + 1), g')),
      uniform_real_hundredths =
        (\<lambda>a b g. case g of [] \<Rightarrow> (nat (100 * a), [])
                 | r # g' \<Rightarrow> (nat (100 * a) + r mod nat (100 * (b - a)), g'))\<rparr>"

text \<open>A tape for two iterations, and the two lines the generator writes from it.\<close>

definition tape_example :: "nat list" where
  "tape_example = [2, 3, 0, 2, 4, 37, 4, 90, 12345, 0, 5, 5, 5, 7]"

definition tape_line_1 :: string where
  "tape_line_1 =
     ''1672531203|10.0.0.5|user_alpha|TRADE_EXECUTE|FAILURE|42ms|Symbol:TSLA,Quantity:100,Price:223.45''"

definition tape_line_2 :: string where
  "tape_line_2 =
     ''1672531204|10.10.10.10|admin_zeta|FAILED_LOGIN|FAILURE|12ms|ErrorCode:401_UNAUTHORIZED''"

definition tape_result :: gen_run where
  "tape_result =
     \<lparr>gen_exit = 0,
      gen_file = Some (tape_line_1 @ [newline] @ tape_line_2 @ [newline]),
      gen_cout = ''Successfully generated 2 lines in '' @ [CHR 0x27] @ ''sample.log'' @
                 [CHR 0x27] @ [newline],
      gen_cerr = []\<rparr>"

section \<open>Reading a log line back\<close>

text \<open>
  The fields of a line: the pieces between the occurrences of a delimiter (one more
  piece than there are delimiters).
\<close>

fun split_on :: "char \<Rightarrow> string \<Rightarrow> string list" where
  "split_on d [] = [[]]"
| "split_on d (c # cs) =
     (let rest = split_on d cs in
      if c = d then [] # rest else (c # hd rest) # tl rest)"

text \<open>The value of a non-empty string of decimal digits.\<close>

definition is_digit :: "char \<Rightarrow> bool" where
  "is_digit c \<longleftrightarrow> c \<in> set ''0123456789''"

definition digit_val :: "char \<Rightarrow> nat" where
  "digit_val c = of_char c - 48"

definition parse_nat :: "string \<Rightarrow> nat option" where
  "parse_nat s =
     (if s \<noteq> [] \<and> list_all is_digit s then Some (foldl (\<lambda>acc c. 10 * acc + digit_val c) 0 s)
      else None)"

text \<open>
  The latency field as a reader of the \<open><int>ms\<close> format takes it: the literal suffix
  \<open>ms\<close> is removed and what is left must be a decimal number.
\<close>

definition strip_ms :: "string \<Rightarrow> string option" where
  "strip_ms f =
     (if 2 \<le> length f \<and> drop (length f - 2) f = ''ms'' then Some (take (length f - 2) f)
      else None)"

definition read_latency :: "string \<Rightarrow> nat option" where
  "read_latency f = (case strip_ms f of None \<Rightarrow> None | Some digits \<Rightarrow> parse_nat digits)"

text \<open>The \<open>i\<close>-th \<open>|\<close>-delimited field of a line, and the timestamp read from the first.\<close>

definition field :: "nat \<Rightarrow> string \<Rightarrow> string" where
  "field i l = split_on CHR ''|'' l ! i"

definition line_timestamp :: "string \<Rightarrow> int option" where
  "line_timestamp l = map_option int (parse_nat (field 0 l))"

text \<open>
  A sequence of timestamps in which each exceeds the one before it (the first: the start
  value) by 1 to 5.
\<close>

fun steps_1_to_5 :: "int \<Rightarrow> int list \<Rightarrow> bool" where
  "steps_1_to_5 t0 [] = True"
| "steps_1_to_5 t0 (t # ts) = (1 \<le> t - t0 \<and> t - t0 \<le> 5 \<and> steps_1_to_5 t ts)"

text \<open>
  The shape of the line one iteration writes, with the timestamp before and after the
  iteration; and of the lines a run of iterations writes, each with its timestamp.
\<close>

definition generator_line :: "int \<Rightarrow> int \<Rightarrow> string \<Rightarrow> bool" where
  "generator_line t0 t l \<longleftrightarrow>
     1 \<le> t - t0 \<and> t - t0 \<le> 5 \<and>
     (\<exists>ip user action status latency details.
        ip \<in> set ip_addresses \<and> user \<in> set user_ids \<and> action \<in> set actions \<and>
        status \<in> set statuses \<and> (action = ''FAILED_LOGIN'' \<longrightarrow> status = ''FAILURE'') \<and>
        5 \<le> latency \<and> latency \<le> 250 \<and>
        CHR ''|'' \<notin> set details \<and> newline \<notin> set details \<and>
        l = show_int t @ ''|'' @ ip @ ''|'' @ user @ ''|'' @ action @ ''|'' @ status @ ''|'' @
            show_int latency @ ''ms|'' @ details)"

fun generator_lines :: "int \<Rightarrow> (int \<times> string) list \<Rightarrow> bool" where
  "generator_lines t0 [] = True"
| "generator_lines t0 ((t, l) # rest) = (generator_line t0 t l \<and> generator_lines t rest)"

section \<open>The record parser and the streaming aggregator of the specification\<close>

text \<open>
  Modelled from the spec: the Record Parser (\<open>parse\<close>) and the Streaming Aggregator
  (\<open>ingest\<close>, \<open>snapshot\<close>) are not in the repository, whose two programs only count
  lines and generate them; the specification describes them as the core the project is
  building toward. The definitions of this section follow the specification's sections
  3, 4 and 7.
\<close>

datatype error_kind = MalformedFieldCount | InvalidTimestamp | InvalidLatency

record ParseError =
  line_number :: int
  raw_line :: string
  kind :: error_kind

record LogRecord =
  timestamp :: nat
  source_ip :: string
  user_id :: string
  action :: string
  status :: string
  latency_ms :: nat
  details :: string

text \<open>
  Modelled from the spec: the split of section 4.1. The line is cut at its first \<open>k\<close>
  delimiters only; the last field is the remainder of the line and is not split again.
\<close>

fun split_limit :: "nat \<Rightarrow> char \<Rightarrow> string \<Rightarrow> string list" where
  "split_limit k d [] = [[]]"
| "split_limit k d (c # cs) =
     (if c = d \<and> 0 < k then [] # split_limit (k - 1) d cs
      else let rest = split_limit k d cs in (c # hd rest) # tl rest)"

text \<open>
  Modelled from the spec: \<open>parse(line, line_number)\<close> of section 4.1. The checks are made
  in the order the specification lists them: the number of fields, the timestamp, the
  latency. An integer field is a non-empty string of decimal digits (\<open>parse_nat\<close>),
  the latency after its \<open>ms\<close> suffix is removed (\<open>read_latency\<close>). The IP, user,
  action and status fields are taken as they are (the specification names no error for
  them), and the details field is kept as text.
\<close>

definition parse :: "string \<Rightarrow> int \<Rightarrow> ParseError + LogRecord" where
  "parse line n =
     (let fields = split_limit 6 CHR ''|'' line in
      if length fields < 7 then
        Inl \<lparr>line_number = n, raw_line = line, kind = MalformedFieldCount\<rparr>
      else
        case parse_nat (fields ! 0) of
          None \<Rightarrow> Inl \<lparr>line_number = n, raw_line = line, kind = InvalidTimestamp\<rparr>
        | Some ts \<Rightarrow>
            (case read_latency (fields ! 5) of
               None \<Rightarrow> Inl \<lparr>line_number = n, raw_line = line, kind = InvalidLatency\<rparr>
             | Some lat \<Rightarrow>
                 Inr \<lparr>timestamp = ts, source_ip = fields ! 1, user_id = fields ! 2,
                      action = fields ! 3, status = fields ! 4, latency_ms = lat,
                      details = fields ! 6\<rparr>))"

text \<open>
  Modelled from the spec: the on-demand details mapping of section 4.1. The details text
  is split on \<open>,\<close>, and each token on its first \<open>:\<close>; a token without \<open>:\<close> has the
  empty value. Deferring and caching the computation does not change its value.
\<close>

definition detail_pair :: "string \<Rightarrow> string \<times> string" where
  "detail_pair tok =
     (takeWhile (\<lambda>c. c \<noteq> CHR '':'') tok, drop 1 (dropWhile (\<lambda>c. c \<noteq> CHR '':'') tok))"

definition details_map :: "LogRecord \<Rightarrow> (string \<rightharpoonup> string)" where
  "details_map r = map_of (map detail_pair (split_on CHR '','' (details r)))"

text \<open>
  Modelled from the spec: the aggregator state of sections 3 and 4.2, which is also the
  snapshot it hands out. The latency summary is the number of latencies folded in, their
  minimum, maximum and sum (the mean is the sum over the number); the percentile
  estimate, which the specification leaves to the implementation, is not modelled. The
  records parsed are the records folded into the latency summary.
\<close>

record AggregateSnapshot =
  total_lines :: nat
  parse_errors :: nat
  action_counts :: "string \<Rightarrow> nat"
  status_counts :: "string \<Rightarrow> nat"
  latency_count :: nat
  latency_min :: "nat option"
  latency_max :: "nat option"
  latency_sum :: nat

definition records_parsed :: "AggregateSnapshot \<Rightarrow> nat" where
  "records_parsed s = latency_count s"

definition empty_aggregator :: AggregateSnapshot where
  "empty_aggregator =
     \<lparr>total_lines = 0, parse_errors = 0, action_counts = (\<lambda>a. 0), status_counts = (\<lambda>s. 0),
      latency_count = 0, latency_min = None, latency_max = None, latency_sum = 0\<rparr>"

text \<open>
  Modelled from the spec: \<open>ingest(item)\<close> of section 4.2, as a function from the state
  before to the state after, and \<open>snapshot()\<close>, a read of the state.
\<close>

definition ingest :: "AggregateSnapshot \<Rightarrow> ParseError + LogRecord \<Rightarrow> AggregateSnapshot" where
  "ingest s item =
     (case item of
        Inl e \<Rightarrow> s\<lparr>total_lines := total_lines s + 1, parse_errors := parse_errors s + 1\<rparr>
      | Inr r \<Rightarrow>
          s\<lparr>total_lines := total_lines s + 1,
            action_counts := (action_counts s)(action r := action_counts s (action r) + 1),
            status_counts := (status_counts s)(status r := status_counts s (status r) + 1),
            latency_count := latency_count s + 1,
            latency_min := (case latency_min s of None \<Rightarrow> Some (latency_ms r)
                            | Some m \<Rightarrow> Some (min m (latency_ms r))),
            latency_max := (case latency_max s of None \<Rightarrow> Some (latency_ms r)
                            | Some m \<Rightarrow> Some (max m (latency_ms r))),
            latency_sum := latency_sum s + latency_ms r\<rparr>)"

definition snapshot :: "AggregateSnapshot \<Rightarrow> AggregateSnapshot" where
  "snapshot s = s"

section \<open>Properties of the analyzer\<close>

lemma read_loop_getline_all:
  "read_loop s n = (n + int (length (getline_all s)), map Getline (getline_all s))"
proof (induction s arbitrary: n rule: getline_all.induct)
  case (1 s)
  show ?case
  proof (cases "getline s")
    case None
    then show ?thesis
      by (simp add: read_loop.simps [of s] getline_all.simps [of s])
  next
    case (Some p)
    obtain l s' where p: "p = (l, s')" by (cases p)
    from "1.IH" [OF Some p [symmetric]] Some p show ?thesis
      by (simp add: read_loop.simps [of s] getline_all.simps [of s])
  qed
qed

lemma getline_all_Nil: "getline_all [] = []"
  by (simp add: getline_all.simps [of "[]"] getline_def)

lemma getline_all_count:
  "length (getline_all s) =
     count_list s newline + (if s \<noteq> [] \<and> last s \<noteq> newline then 1 else 0)"
proof (induction s rule: getline_all.induct)
  case (1 s)
  show ?case
  proof (cases "s = []")
    case True
    then show ?thesis by (simp add: getline_all_Nil)
  next
    case False
    let ?P = "\<lambda>c. c \<noteq> newline"
    have dec: "s = takeWhile ?P s @ dropWhile ?P s" by simp
    have c0: "count_list (takeWhile ?P s) newline = 0"
      by (rule count_notin) (auto dest: set_takeWhileD)
    show ?thesis
    proof (cases "dropWhile ?P s")
      case Nil
      then have all: "\<forall>c \<in> set s. c \<noteq> newline" by (simp add: dropWhile_eq_Nil_conv)
      with False have "last s \<noteq> newline" by (meson last_in_set)
      moreover from all have "count_list s newline = 0" by auto
      moreover have tw: "takeWhile ?P s = s"
        using all by (simp add: takeWhile_eq_all_conv)
      have "getline s = Some (s, [])"
        unfolding getline_def Nil tw using False by simp
      then have "getline_all s = [s]"
        by (simp add: getline_all.simps [of s] getline_all_Nil)
      ultimately show ?thesis using False by simp
    next
      case (Cons a rest)
      then have a: "a = newline" using hd_dropWhile [of ?P s] by (metis list.sel(1) list.distinct(1))
      have g: "getline s = Some (takeWhile ?P s, rest)"
        using False Cons by (simp add: getline_def)
      have s: "s = takeWhile ?P s @ newline # rest" using dec Cons a by simp
      have cnt: "count_list s newline = Suc (count_list rest newline)"
        by (subst s) (simp add: c0)
      have lst: "(s \<noteq> [] \<and> last s \<noteq> newline) = (rest \<noteq> [] \<and> last rest \<noteq> newline)"
        by (subst s, subst s) simp
      from "1.IH" [OF g refl] have "length (getline_all rest) =
          count_list rest newline + (if rest \<noteq> [] \<and> last rest \<noteq> newline then 1 else 0)" .
      then show ?thesis
        using cnt lst g by (simp add: getline_all.simps [of s])
    qed
  qed
qed

lemma getline_Some_length: "getline s = Some (l, s') \<Longrightarrow> length s' < length s"
proof -
  assume g: "getline s = Some (l, s')"
  then have ne: "s \<noteq> []" and s': "s' = drop 1 (dropWhile (\<lambda>c. c \<noteq> newline) s)"
    by (auto simp: getline_def split: if_splits)
  have "length (dropWhile (\<lambda>c. c \<noteq> newline) s) \<le> length s"
    by (rule length_dropWhile_le)
  with ne s' show ?thesis
    by (cases "dropWhile (\<lambda>c. c \<noteq> newline) s") auto
qed

lemma getline_all_le: "length (getline_all s) \<le> length s"
proof (induction s rule: getline_all.induct)
  case (1 s)
  show ?case
  proof (cases "getline s")
    case None
    then show ?thesis by (simp add: getline_all.simps [of s])
  next
    case (Some p)
    obtain l s' where p: "p = (l, s')" by (cases p)
    from "1.IH" [OF Some p [symmetric]] getline_Some_length [of s l s'] Some p
    show ?thesis by (simp add: getline_all.simps [of s])
  qed
qed

lemma events_of_reads [simp]:
  "cout_text (map Getline ls) = []" "cerr_text (map Getline ls) = []"
  "opened_paths (map Getline ls) = []" "lines_read (map Getline ls) = ls"
  by (induction ls) auto

lemma cout_text_append [simp]: "cout_text (xs @ ys) = cout_text xs @ cout_text ys"
  by (induction xs rule: cout_text.induct) auto

lemma cerr_text_append [simp]: "cerr_text (xs @ ys) = cerr_text xs @ cerr_text ys"
  by (induction xs rule: cerr_text.induct) auto

lemma opened_paths_append [simp]: "opened_paths (xs @ ys) = opened_paths xs @ opened_paths ys"
  by (induction xs rule: opened_paths.induct) auto

lemma lines_read_append [simp]: "lines_read (xs @ ys) = lines_read xs @ lines_read ys"
  by (induction xs rule: lines_read.induct) auto

lemma analyzer_main_opened:
  assumes "fs path = Some content"
  shows "analyzer_main fs argv0 [path] =
           (banner path @ [Open path] @
            [Cout (''File opened successfully. Starting analysis...'' @ [newline])] @
            map Getline (getline_all content) @
            [Cout (''Analysis finished.'' @ [newline]),
             Cout (''Total lines processed: '' @ show_int (int (length (getline_all content))) @ [newline]),
             Cout (''------------------------------------'' @ [newline])], 0)"
  using assms by (simp add: analyzer_main_def read_loop_getline_all)

lemma analyzer_main_not_opened:
  assumes "fs path = None"
  shows "analyzer_main fs argv0 [path] =
           (banner path @ [Open path] @
            [Cerr (''Fatal Error: Could not open the log file at: '' @ path @ [newline])], 1)"
  using assms by (simp add: analyzer_main_def)

text \<open>
  C2. When the file at the path can be opened, the run constructs one stream on that
  path, reads with \<open>std::getline\<close> exactly the lines the file yields, in order,
  prints their number after \<open>Total lines processed:\<close>, writes nothing to the error
  stream and returns exit code 0. The number of lines is the number of newline
  characters, plus one when the file ends in an unterminated line.
\<close>

theorem analyzer_counts_lines:
  assumes "fs path = Some content"
  shows "snd (analyzer_main fs argv0 [path]) = 0
         \<and> opened_paths (fst (analyzer_main fs argv0 [path])) = [path]
         \<and> lines_read (fst (analyzer_main fs argv0 [path])) = getline_all content
         \<and> cout_text (fst (analyzer_main fs argv0 [path])) =
             ''Initializing Log File Analyzer...'' @ [newline] @
             ''------------------------------------'' @ [newline] @
             ''Target log file: '' @ path @ [newline] @
             ''File opened successfully. Starting analysis...'' @ [newline] @
             ''Analysis finished.'' @ [newline] @
             ''Total lines processed: '' @ show_int (int (length (getline_all content))) @ [newline] @
             ''------------------------------------'' @ [newline]
         \<and> cerr_text (fst (analyzer_main fs argv0 [path])) = []
         \<and> length (getline_all content) =
             count_list content newline + (if content \<noteq> [] \<and> last content \<noteq> newline then 1 else 0)"
proof -
  have "length (getline_all content) =
          count_list content newline + (if content \<noteq> [] \<and> last content \<noteq> newline then 1 else 0)"
    by (rule getline_all_count)
  then show ?thesis
    using assms by (simp add: analyzer_main_opened [of fs path content argv0] banner_def)
qed

theorem analyzer_counts_lines_witness:
  "(\<lambda>p. if p = ''sample.log'' then Some (''a|b'' @ [newline] @ [newline] @ ''c'') else None) ''sample.log''
     = Some (''a|b'' @ [newline] @ [newline] @ ''c'')
   \<and> snd (analyzer_main (\<lambda>p. if p = ''sample.log'' then Some (''a|b'' @ [newline] @ [newline] @ ''c'') else None)
        ''analyzer'' [''sample.log'']) = 0
   \<and> lines_read (fst (analyzer_main (\<lambda>p. if p = ''sample.log'' then Some (''a|b'' @ [newline] @ [newline] @ ''c'') else None)
        ''analyzer'' [''sample.log''])) = [''a|b'', '''', ''c'']
   \<and> cout_text (fst (analyzer_main (\<lambda>p. if p = ''sample.log'' then Some (''a|b'' @ [newline] @ [newline] @ ''c'') else None)
        ''analyzer'' [''sample.log''])) =
             ''Initializing Log File Analyzer...'' @ [newline] @
             ''------------------------------------'' @ [newline] @
             ''Target log file: sample.log'' @ [newline] @
             ''File opened successfully. Starting analysis...'' @ [newline] @
             ''Analysis finished.'' @ [newline] @
             ''Total lines processed: 3'' @ [newline] @
             ''------------------------------------'' @ [newline]"
proof -
  let ?c = "''a|b'' @ [newline] @ [newline] @ ''c''"
  let ?fs = "\<lambda>p. if p = ''sample.log'' then Some ?c else None"
  have h: "?fs ''sample.log'' = Some ?c" by simp
  have g: "getline_all ?c = [''a|b'', '''', ''c'']"
    by (simp add: getline_all.simps getline_def newline_def)
  have s: "show_int 3 = ''3''"
    by (simp add: show_int_def show_nat.simps digit_char_def)
  show ?thesis
    using h analyzer_counts_lines [of ?fs "''sample.log''" ?c "''analyzer''"] g s by simp
qed

text \<open>
  C3. For an invocation with one path argument, the exit code is 1 exactly when the
  file cannot be opened, and 0 otherwise. When it cannot be opened the run has written
  the fatal error naming the path to the error stream and has read no line. Once the
  file is open nothing is written to the error stream, whatever the file holds.
\<close>

theorem analyzer_fails_iff_not_opened:
  "(snd (analyzer_main fs argv0 [path]) = 1 \<longleftrightarrow> fs path = None)
   \<and> (snd (analyzer_main fs argv0 [path]) = 0 \<longleftrightarrow> fs path \<noteq> None)
   \<and> (fs path = None \<longrightarrow>
        opened_paths (fst (analyzer_main fs argv0 [path])) = [path]
        \<and> cerr_text (fst (analyzer_main fs argv0 [path])) =
            ''Fatal Error: Could not open the log file at: '' @ path @ [newline]
        \<and> lines_read (fst (analyzer_main fs argv0 [path])) = []
        \<and> cout_text (fst (analyzer_main fs argv0 [path])) =
            ''Initializing Log File Analyzer...'' @ [newline] @
            ''------------------------------------'' @ [newline] @
            ''Target log file: '' @ path @ [newline])
   \<and> (fs path \<noteq> None \<longrightarrow> cerr_text (fst (analyzer_main fs argv0 [path])) = [])"
proof (cases "fs path")
  case None
  then show ?thesis
    by (simp add: analyzer_main_not_opened [of fs path argv0] banner_def)
next
  case (Some content)
  then show ?thesis
    by (simp add: analyzer_main_opened [of fs path content argv0] banner_def)
qed

theorem analyzer_fails_iff_not_opened_witness:
  "snd (analyzer_main (\<lambda>p. if p = ''sample.log'' then Some ''abc'' else None) ''analyzer'' [''missing.log'']) = 1
   \<and> cerr_text (fst (analyzer_main (\<lambda>p. if p = ''sample.log'' then Some ''abc'' else None) ''analyzer'' [''missing.log''])) =
        ''Fatal Error: Could not open the log file at: missing.log'' @ [newline]
   \<and> lines_read (fst (analyzer_main (\<lambda>p. if p = ''sample.log'' then Some ''abc'' else None) ''analyzer'' [''missing.log''])) = []
   \<and> snd (analyzer_main (\<lambda>p. if p = ''sample.log'' then Some ''abc'' else None) ''analyzer'' [''sample.log'']) = 0
   \<and> cerr_text (fst (analyzer_main (\<lambda>p. if p = ''sample.log'' then Some ''abc'' else None) ''analyzer'' [''sample.log''])) = []"
  using analyzer_fails_iff_not_opened [of "\<lambda>p. if p = ''sample.log'' then Some ''abc'' else None" "''analyzer''" "''missing.log''"]
        analyzer_fails_iff_not_opened [of "\<lambda>p. if p = ''sample.log'' then Some ''abc'' else None" "''analyzer''" "''sample.log''"]
  by simp

text \<open>
  C4. An invocation whose argument count is not 2 (any number of arguments after the
  program name other than one) writes the error line and the usage line to the error
  stream, nothing to standard output, constructs no file stream, reads no line and
  returns exit code 1.
\<close>

theorem analyzer_wrong_argc:
  assumes "1 + int (length args) \<noteq> 2"
  shows "snd (analyzer_main fs argv0 args) = 1
         \<and> cerr_text (fst (analyzer_main fs argv0 args)) =
             ''Error: Incorrect number of arguments.'' @ [newline] @
             ''Usage: '' @ argv0 @ '' <path_to_log_file>'' @ [newline]
         \<and> cout_text (fst (analyzer_main fs argv0 args)) = []
         \<and> opened_paths (fst (analyzer_main fs argv0 args)) = []
         \<and> lines_read (fst (analyzer_main fs argv0 args)) = []"
  using assms by (simp add: analyzer_main_def)

theorem analyzer_wrong_argc_witness:
  "1 + int (length [''a.log'', ''b.log'']) \<noteq> 2
   \<and> snd (analyzer_main (\<lambda>p. Some ''x'') ''analyzer'' [''a.log'', ''b.log'']) = 1
   \<and> opened_paths (fst (analyzer_main (\<lambda>p. Some ''x'') ''analyzer'' [''a.log'', ''b.log''])) = []
   \<and> cerr_text (fst (analyzer_main (\<lambda>p. Some ''x'') ''analyzer'' [''a.log'', ''b.log''])) =
        ''Error: Incorrect number of arguments.'' @ [newline] @
        ''Usage: analyzer <path_to_log_file>'' @ [newline]
   \<and> 1 + int (length ([] :: string list)) \<noteq> 2
   \<and> snd (analyzer_main (\<lambda>p. Some ''x'') ''analyzer'' []) = 1
   \<and> opened_paths (fst (analyzer_main (\<lambda>p. Some ''x'') ''analyzer'' [])) = []"
proof -
  have h: "1 + int (length [''a.log'', ''b.log'']) \<noteq> 2" by simp
  have h0: "1 + int (length ([] :: string list)) \<noteq> 2" by simp
  show ?thesis
    using h h0 analyzer_wrong_argc [OF h, of "\<lambda>p. Some ''x''" "''analyzer''"]
      analyzer_wrong_argc [OF h0, of "\<lambda>p. Some ''x''" "''analyzer''"] by simp
qed

section \<open>Properties of the generator\<close>

subsection \<open>Decimal text\<close>

lemma digit_char_is_digit: "d < 10 \<Longrightarrow> is_digit (digit_char d)"
  unfolding is_digit_def digit_char_def by (rule nth_mem) simp

lemma digit_val_digit_char: "d < 10 \<Longrightarrow> digit_val (digit_char d) = d"
proof -
  assume "d < 10"
  then have "d \<in> {0, 1, 2, 3, 4, 5, 6, 7, 8, 9}" by auto
  then show ?thesis
    by (auto simp: digit_val_def digit_char_def)
qed

lemma show_nat_digits: "list_all is_digit (show_nat n)"
proof (induction n rule: show_nat.induct)
  case (1 n)
  show ?case
  proof (cases "n < 10")
    case True
    then show ?thesis by (simp add: show_nat.simps [of n] digit_char_is_digit)
  next
    case False
    with "1.IH" show ?thesis
      by (simp add: show_nat.simps [of n] digit_char_is_digit)
  qed
qed

lemma show_nat_not_Nil: "show_nat n \<noteq> []"
  by (simp add: show_nat.simps [of n])

lemma foldl_digits_snoc:
  "foldl (\<lambda>acc c. 10 * acc + digit_val c) 0 (s @ [c]) =
     10 * foldl (\<lambda>acc c. 10 * acc + digit_val c) 0 s + digit_val c"
  by simp

lemma digits_value_show_nat: "foldl (\<lambda>acc c. 10 * acc + digit_val c) 0 (show_nat n) = n"
proof (induction n rule: show_nat.induct)
  case (1 n)
  show ?case
  proof (cases "n < 10")
    case True
    then show ?thesis by (simp add: show_nat.simps [of n] digit_val_digit_char)
  next
    case False
    with "1.IH" show ?thesis
      by (simp add: show_nat.simps [of n] digit_val_digit_char)
  qed
qed

lemma parse_nat_show_nat: "parse_nat (show_nat n) = Some n"
  by (simp add: parse_nat_def show_nat_not_Nil show_nat_digits digits_value_show_nat)

lemma show_int_nonneg: "0 \<le> i \<Longrightarrow> show_int i = show_nat (nat i)"
  by (simp add: show_int_def)

lemma is_digit_not_special: "is_digit c \<Longrightarrow> c \<noteq> CHR ''|'' \<and> c \<noteq> newline"
  by (auto simp: is_digit_def newline_def)

lemma show_nat_no_special: "CHR ''|'' \<notin> set (show_nat n) \<and> newline \<notin> set (show_nat n)"
  using show_nat_digits [of n] is_digit_not_special by (auto simp: list_all_iff)

lemma show_int_no_special: "CHR ''|'' \<notin> set (show_int i) \<and> newline \<notin> set (show_int i)"
  using show_nat_no_special by (simp add: show_int_def newline_def)

subsection \<open>Splitting\<close>

lemma split_on_not_Nil: "split_on d s \<noteq> []"
  by (cases s) (auto simp: Let_def)

lemma split_on_no_delim: "d \<notin> set a \<Longrightarrow> split_on d a = [a]"
  by (induction a) (auto simp: Let_def)

lemma split_on_field: "d \<notin> set a \<Longrightarrow> split_on d (a @ d # r) = a # split_on d r"
  by (induction a) (auto simp: Let_def)

lemma getline_field:
  "newline \<notin> set l \<Longrightarrow> getline (l @ newline # r) = Some (l, r)"
  by (simp add: getline_def takeWhile_append1 dropWhile_append3 takeWhile_tail dropWhile_append)

lemma getline_all_step: "getline s = Some (l, s') \<Longrightarrow> getline_all s = l # getline_all s'"
  by (simp add: getline_all.simps [of s])

lemma getline_all_lines:
  "\<forall>l \<in> set ls. newline \<notin> set l \<Longrightarrow> getline_all (concat (map (\<lambda>l. l @ [newline]) ls)) = ls"
proof (induction ls)
  case Nil
  then show ?case by (simp add: getline_all_Nil)
next
  case (Cons l ls)
  let ?rest = "concat (map (\<lambda>l. l @ [newline]) ls)"
  from Cons.prems have "getline (l @ newline # ?rest) = Some (l, ?rest)"
    by (simp add: getline_field)
  then have "getline_all (l @ newline # ?rest) = l # getline_all ?rest"
    by (rule getline_all_step)
  with Cons show ?case by simp
qed

subsection \<open>One iteration and the loop\<close>

lemma getRandomElement_in_range:
  assumes "uniform_int_in_range L" and "vec \<noteq> []"
  shows "\<exists>x gen'. getRandomElement L vec gen = Some (x, gen') \<and> x \<in> set vec"
proof -
  obtain i gen' where d: "uniform_int L 0 (int (length vec) - 1) gen = (i, gen')"
    by (cases "uniform_int L 0 (int (length vec) - 1) gen")
  from assms(2) have "(0::int) \<le> int (length vec) - 1"
    by (cases vec) auto
  with assms(1) have "0 \<le> fst (uniform_int L 0 (int (length vec) - 1) gen)
      \<and> fst (uniform_int L 0 (int (length vec) - 1) gen) \<le> int (length vec) - 1"
    unfolding uniform_int_in_range_def by blast
  with d have i: "0 \<le> i" "i < int (length vec)" by auto
  then have "nat i < length vec" by simp
  then have "vec ! nat i \<in> set vec" by (rule nth_mem)
  with d i show ?thesis by (simp add: getRandomElement_def)
qed

lemma pick_status_in_range:
  assumes "uniform_int_in_range L"
  shows "\<exists>st gen'. pick_status L act gen = Some (st, gen') \<and>
           st \<in> set statuses \<and> (act = ''FAILED_LOGIN'' \<longrightarrow> st = ''FAILURE'')"
proof (cases "act = ''FAILED_LOGIN''")
  case True
  then show ?thesis by (simp add: pick_status_def statuses_def)
next
  case False
  have "statuses \<noteq> []" by (simp add: statuses_def)
  from getRandomElement_in_range [OF assms this, of gen] False
  show ?thesis by (auto simp: pick_status_def)
qed

lemma pool_no_special:
  "x \<in> set ip_addresses \<union> set user_ids \<union> set actions \<union> set statuses \<union> set trade_symbols
     \<Longrightarrow> CHR ''|'' \<notin> set x \<and> newline \<notin> set x"
  by (auto simp: ip_addresses_def user_ids_def actions_def statuses_def trade_symbols_def newline_def)

lemma show_fixed2_no_special:
  "CHR ''|'' \<notin> set (show_fixed2 h) \<and> newline \<notin> set (show_fixed2 h)"
proof -
  have a: "is_digit (digit_char (h mod 100 div 10))"
    by (rule digit_char_is_digit) (simp add: less_mult_imp_div_less)
  have b: "is_digit (digit_char (h mod 10))"
    by (rule digit_char_is_digit) simp
  from is_digit_not_special [OF a] is_digit_not_special [OF b] show_nat_no_special [of "h div 100"]
  show ?thesis
    unfolding show_fixed2_def by (auto simp: newline_def)
qed

lemma write_details_no_special:
  assumes "uniform_int_in_range L"
  shows "\<exists>det gen'. write_details L act gen = Some (det, gen') \<and>
           CHR ''|'' \<notin> set det \<and> newline \<notin> set det"
proof (cases "act = ''TRADE_EXECUTE''")
  case True
  have "trade_symbols \<noteq> []" by (simp add: trade_symbols_def)
  from getRandomElement_in_range [OF assms this, of gen]
  obtain symbol gen1 where s: "getRandomElement L trade_symbols gen = Some (symbol, gen1)"
    and m: "symbol \<in> set trade_symbols" by blast
  obtain quantity gen2 where q: "uniform_int L 10 500 gen1 = (quantity, gen2)"
    by (cases "uniform_int L 10 500 gen1")
  obtain price gen3 where p: "uniform_real_hundredths L 100 5000 gen2 = (price, gen3)"
    by (cases "uniform_real_hundredths L 100 5000 gen2")
  have w: "write_details L act gen =
          Some (''Symbol:'' @ symbol @ '',Quantity:'' @ show_int quantity @
                '',Price:'' @ show_fixed2 price, gen3)"
    using True s q p by (simp add: write_details_def)
  from m have "CHR ''|'' \<notin> set symbol \<and> newline \<notin> set symbol"
    using pool_no_special [of symbol] by simp
  with show_int_no_special [of quantity] show_fixed2_no_special [of price]
  have "CHR ''|'' \<notin> set (''Symbol:'' @ symbol @ '',Quantity:'' @ show_int quantity @
                '',Price:'' @ show_fixed2 price)
      \<and> newline \<notin> set (''Symbol:'' @ symbol @ '',Quantity:'' @ show_int quantity @
                '',Price:'' @ show_fixed2 price)"
    by (simp add: newline_def)
  with w show ?thesis by blast
next
  case False
  then show ?thesis by (simp add: write_details_def newline_def)
qed

lemma loop_body_line:
  assumes "uniform_int_in_range L"
  shows "\<exists>t l gen'. loop_body L t0 gen = Some (t, l @ [newline], gen') \<and> generator_line t0 t l"
proof -
  obtain increment gen1 where i: "uniform_int L 1 5 gen = (increment, gen1)"
    by (cases "uniform_int L 1 5 gen")
  from assms have "1 \<le> fst (uniform_int L 1 5 gen) \<and> fst (uniform_int L 1 5 gen) \<le> 5"
    unfolding uniform_int_in_range_def by simp
  with i have inc: "1 \<le> increment" "increment \<le> 5" by auto
  have "ip_addresses \<noteq> []" by (simp add: ip_addresses_def)
  from getRandomElement_in_range [OF assms this, of gen1]
  obtain ip gen2 where ip: "getRandomElement L ip_addresses gen1 = Some (ip, gen2)"
    and ipm: "ip \<in> set ip_addresses" by blast
  have "user_ids \<noteq> []" by (simp add: user_ids_def)
  from getRandomElement_in_range [OF assms this, of gen2]
  obtain user gen3 where user: "getRandomElement L user_ids gen2 = Some (user, gen3)"
    and userm: "user \<in> set user_ids" by blast
  have "actions \<noteq> []" by (simp add: actions_def)
  from getRandomElement_in_range [OF assms this, of gen3]
  obtain act gen4 where act: "getRandomElement L actions gen3 = Some (act, gen4)"
    and actm: "act \<in> set actions" by blast
  from pick_status_in_range [OF assms, of act gen4]
  obtain st gen5 where st: "pick_status L act gen4 = Some (st, gen5)"
    and stm: "st \<in> set statuses"
    and forced: "act = ''FAILED_LOGIN'' \<longrightarrow> st = ''FAILURE''" by blast
  obtain latency gen6 where l: "uniform_int L 5 250 gen5 = (latency, gen6)"
    by (cases "uniform_int L 5 250 gen5")
  from assms have "5 \<le> fst (uniform_int L 5 250 gen5) \<and> fst (uniform_int L 5 250 gen5) \<le> 250"
    unfolding uniform_int_in_range_def by simp
  with l have lat: "5 \<le> latency" "latency \<le> 250" by auto
  from write_details_no_special [OF assms, of act gen6]
  obtain det gen7 where det: "write_details L act gen6 = Some (det, gen7)"
    and dm: "CHR ''|'' \<notin> set det" "newline \<notin> set det" by blast
  let ?t = "t0 + increment"
  let ?l = "show_int ?t @ ''|'' @ ip @ ''|'' @ user @ ''|'' @ act @ ''|'' @ st @ ''|'' @
            show_int latency @ ''ms|'' @ det"
  have "loop_body L t0 gen = Some (?t, ?l @ [newline], gen7)"
    using i ip user act st l det by (simp add: loop_body_def Let_def)
  moreover have "generator_line t0 ?t ?l"
  proof -
    have "\<exists>ip' user' act' st' latency' det'.
        ip' \<in> set ip_addresses \<and> user' \<in> set user_ids \<and> act' \<in> set actions \<and>
        st' \<in> set statuses \<and> (act' = ''FAILED_LOGIN'' \<longrightarrow> st' = ''FAILURE'') \<and>
        5 \<le> latency' \<and> latency' \<le> 250 \<and>
        CHR ''|'' \<notin> set det' \<and> newline \<notin> set det' \<and>
        ?l = show_int ?t @ ''|'' @ ip' @ ''|'' @ user' @ ''|'' @ act' @ ''|'' @ st' @ ''|'' @
            show_int latency' @ ''ms|'' @ det'"
      using ipm userm actm stm forced lat dm by blast
    with inc show ?thesis
      unfolding generator_line_def by simp
  qed
  ultimately show ?thesis by blast
qed

lemma for_loop_lines:
  assumes "uniform_int_in_range L"
  shows "\<exists>tls gen'. for_loop L k t0 out gen =
            Some (last (t0 # map fst tls), out @ concat (map (\<lambda>l. l @ [newline]) (map snd tls)), gen')
          \<and> length tls = k \<and> generator_lines t0 tls"
proof (induction k arbitrary: t0 out gen)
  case 0
  have "for_loop L 0 t0 out gen = Some (last (t0 # map fst []), out @ concat (map (\<lambda>l. l @ [newline]) (map snd [])), gen)
      \<and> length ([] :: (int \<times> string) list) = 0 \<and> generator_lines t0 []"
    by simp
  then show ?case by blast
next
  case (Suc k)
  from loop_body_line [OF assms, of t0 gen]
  obtain t l gen1 where b: "loop_body L t0 gen = Some (t, l @ [newline], gen1)"
    and gl: "generator_line t0 t l" by blast
  from Suc.IH [of t "out @ l @ [newline]" gen1]
  obtain tls gen' where r: "for_loop L k t (out @ l @ [newline]) gen1 =
            Some (last (t # map fst tls), (out @ l @ [newline]) @ concat (map (\<lambda>l. l @ [newline]) (map snd tls)), gen')"
    and len: "length tls = k" and gls: "generator_lines t tls" by blast
  have "for_loop L (Suc k) t0 out gen =
          Some (last (t0 # map fst ((t, l) # tls)),
                out @ concat (map (\<lambda>l. l @ [newline]) (map snd ((t, l) # tls))), gen')
        \<and> length ((t, l) # tls) = Suc k \<and> generator_lines t0 ((t, l) # tls)"
    using b r len gl gls by simp
  then show ?case by blast
qed

subsection \<open>The lines of a run\<close>

lemma generator_line_fields:
  assumes "generator_line t0 t l" and "0 \<le> t"
  shows "\<exists>ip user act st latency det.
           ip \<in> set ip_addresses \<and> user \<in> set user_ids \<and> act \<in> set actions \<and>
           st \<in> set statuses \<and> (act = ''FAILED_LOGIN'' \<longrightarrow> st = ''FAILURE'') \<and>
           5 \<le> latency \<and> latency \<le> 250 \<and> CHR ''|'' \<notin> set det \<and>
           l = show_int t @ ''|'' @ ip @ ''|'' @ user @ ''|'' @ act @ ''|'' @ st @ ''|'' @
               show_int latency @ ''ms|'' @ det \<and>
           split_on CHR ''|'' l = [show_int t, ip, user, act, st, show_int latency @ ''ms'', det]"
proof -
  from assms(1) obtain ip user act st latency det where
    m: "ip \<in> set ip_addresses" "user \<in> set user_ids" "act \<in> set actions" "st \<in> set statuses"
    and f: "act = ''FAILED_LOGIN'' \<longrightarrow> st = ''FAILURE''"
    and lat: "5 \<le> latency" "latency \<le> 250"
    and d: "CHR ''|'' \<notin> set det"
    and l: "l = show_int t @ ''|'' @ ip @ ''|'' @ user @ ''|'' @ act @ ''|'' @ st @ ''|'' @
               show_int latency @ ''ms|'' @ det"
    unfolding generator_line_def by blast
  have n0: "CHR ''|'' \<notin> set (show_int t)" using show_int_no_special by simp
  have n1: "CHR ''|'' \<notin> set ip" using pool_no_special [of ip] m by simp
  have n2: "CHR ''|'' \<notin> set user" using pool_no_special [of user] m by simp
  have n3: "CHR ''|'' \<notin> set act" using pool_no_special [of act] m by simp
  have n4: "CHR ''|'' \<notin> set st" using pool_no_special [of st] m by simp
  have n5: "CHR ''|'' \<notin> set (show_int latency @ ''ms'')" using show_int_no_special by simp
  have s6: "split_on CHR ''|'' det = [det]" using d by (rule split_on_no_delim)
  have s5: "split_on CHR ''|'' ((show_int latency @ ''ms'') @ CHR ''|'' # det) =
              [show_int latency @ ''ms'', det]"
    by (simp only: split_on_field [OF n5] s6)
  have s4: "split_on CHR ''|'' (st @ CHR ''|'' # (show_int latency @ ''ms'') @ CHR ''|'' # det) =
              [st, show_int latency @ ''ms'', det]"
    by (simp only: split_on_field [OF n4] s5)
  have s3: "split_on CHR ''|'' (act @ CHR ''|'' # st @ CHR ''|'' # (show_int latency @ ''ms'') @ CHR ''|'' # det) =
              [act, st, show_int latency @ ''ms'', det]"
    by (simp only: split_on_field [OF n3] s4)
  have s2: "split_on CHR ''|'' (user @ CHR ''|'' # act @ CHR ''|'' # st @ CHR ''|'' # (show_int latency @ ''ms'') @ CHR ''|'' # det) =
              [user, act, st, show_int latency @ ''ms'', det]"
    by (simp only: split_on_field [OF n2] s3)
  have s1: "split_on CHR ''|'' (ip @ CHR ''|'' # user @ CHR ''|'' # act @ CHR ''|'' # st @ CHR ''|'' # (show_int latency @ ''ms'') @ CHR ''|'' # det) =
              [ip, user, act, st, show_int latency @ ''ms'', det]"
    by (simp only: split_on_field [OF n1] s2)
  have s0: "split_on CHR ''|'' (show_int t @ CHR ''|'' # ip @ CHR ''|'' # user @ CHR ''|'' # act @ CHR ''|'' # st @ CHR ''|'' # (show_int latency @ ''ms'') @ CHR ''|'' # det) =
              [show_int t, ip, user, act, st, show_int latency @ ''ms'', det]"
    by (simp only: split_on_field [OF n0] s1)
  have "split_on CHR ''|'' l = [show_int t, ip, user, act, st, show_int latency @ ''ms'', det]"
    using s0 by (simp add: l)
  with m f lat d l show ?thesis by blast
qed

lemma generator_line_no_newline:
  assumes "generator_line t0 t l"
  shows "newline \<notin> set l"
proof -
  from assms obtain ip user act st latency det where
    m: "ip \<in> set ip_addresses" "user \<in> set user_ids" "act \<in> set actions" "st \<in> set statuses"
    and d: "newline \<notin> set det"
    and l: "l = show_int t @ ''|'' @ ip @ ''|'' @ user @ ''|'' @ act @ ''|'' @ st @ ''|'' @
               show_int latency @ ''ms|'' @ det"
    unfolding generator_line_def by blast
  from m pool_no_special [of ip] pool_no_special [of user] pool_no_special [of act]
    pool_no_special [of st] show_int_no_special [of t] show_int_no_special [of latency] d
  show ?thesis
    by (simp add: l newline_def)
qed

lemma generator_lines_member:
  "generator_lines t0 tls \<Longrightarrow> 0 \<le> t0 \<Longrightarrow> (t, l) \<in> set tls \<Longrightarrow> \<exists>t'. generator_line t' t l \<and> 0 \<le> t"
proof (induction tls arbitrary: t0)
  case Nil
  then show ?case by simp
next
  case (Cons a tls)
  obtain t1 l1 where a: "a = (t1, l1)" by (cases a)
  from Cons.prems(1) a have g1: "generator_line t0 t1 l1" and gs: "generator_lines t1 tls"
    by simp_all
  from g1 Cons.prems(2) have t1: "0 \<le> t1" by (simp add: generator_line_def)
  show ?case
  proof (cases "(t, l) = (t1, l1)")
    case True
    with g1 t1 show ?thesis by blast
  next
    case False
    with Cons.prems(3) a have "(t, l) \<in> set tls" by auto
    from Cons.IH [OF gs t1 this] show ?thesis .
  qed
qed

lemma generator_lines_steps:
  "generator_lines t0 tls \<Longrightarrow> steps_1_to_5 t0 (map fst tls)"
  by (induction tls arbitrary: t0) (auto simp: generator_line_def)

lemma line_timestamp_generator_line:
  assumes "generator_line t0 t l" and "0 \<le> t"
  shows "line_timestamp l = Some t"
proof -
  from generator_line_fields [OF assms]
  obtain ip user act st latency det where
    "split_on CHR ''|'' l = [show_int t, ip, user, act, st, show_int latency @ ''ms'', det]"
    by blast
  then have "field 0 l = show_nat (nat t)"
    using assms(2) by (simp add: field_def show_int_nonneg)
  then show ?thesis
    using assms(2) by (simp add: line_timestamp_def parse_nat_show_nat)
qed

lemma generator_lines_timestamps:
  "generator_lines t0 tls \<Longrightarrow> 0 \<le> t0 \<Longrightarrow>
     map line_timestamp (map snd tls) = map Some (map fst tls)"
proof (induction tls arbitrary: t0)
  case Nil
  then show ?case by simp
next
  case (Cons a tls)
  obtain t1 l1 where a: "a = (t1, l1)" by (cases a)
  from Cons.prems(1) a have g1: "generator_line t0 t1 l1" and gs: "generator_lines t1 tls"
    by simp_all
  from g1 Cons.prems(2) have t1: "0 \<le> t1" by (simp add: generator_line_def)
  from line_timestamp_generator_line [OF g1 t1] Cons.IH [OF gs t1] a
  show ?case by simp
qed

lemma steps_sorted: "steps_1_to_5 t0 ts \<Longrightarrow> sorted_wrt (<) (t0 # ts)"
proof (induction ts arbitrary: t0)
  case Nil
  then show ?case by simp
next
  case (Cons t ts)
  then have lt: "t0 < t" and s: "sorted_wrt (<) (t # ts)" by auto
  from s have "\<forall>x \<in> set ts. t < x" by simp
  with lt have "\<forall>x \<in> set (t # ts). t0 < x" by auto
  with s show ?case by simp
qed

lemma generator_run_lines:
  assumes "uniform_int_in_range L" and "generator_run L n opens gen = Some r"
    and "gen_file r = Some out"
  shows "\<exists>tls. length tls = n \<and> generator_lines startTimestamp_init tls \<and>
           getline_all out = map snd tls"
proof -
  from for_loop_lines [OF assms(1), of n startTimestamp_init "[]" gen]
  obtain tls gen' where
    f: "for_loop L n startTimestamp_init [] gen =
          Some (last (startTimestamp_init # map fst tls),
                [] @ concat (map (\<lambda>l. l @ [newline]) (map snd tls)), gen')"
    and len: "length tls = n" and gl: "generator_lines startTimestamp_init tls" by blast
  have o: "opens"
    using assms(2,3) by (cases opens) (auto simp: generator_run_def)
  with f assms(2,3) have out: "out = concat (map (\<lambda>l. l @ [newline]) (map snd tls))"
    by (auto simp: generator_run_def)
  have "\<forall>l \<in> set (map snd tls). newline \<notin> set l"
  proof
    fix l assume "l \<in> set (map snd tls)"
    then obtain t where "(t, l) \<in> set tls" by auto
    from generator_lines_member [OF gl _ this] obtain t' where "generator_line t' t l"
      by (auto simp: startTimestamp_init_def)
    then show "newline \<notin> set l" by (rule generator_line_no_newline)
  qed
  then have "getline_all out = map snd tls"
    unfolding out by (rule getline_all_lines)
  with len gl show ?thesis by blast
qed

lemma generator_run_total:
  assumes "uniform_int_in_range L"
  shows "\<exists>r. generator_run L n opens gen = Some r"
proof -
  from for_loop_lines [OF assms, of n startTimestamp_init "[]" gen]
  obtain res where "for_loop L n startTimestamp_init [] gen = Some res" by blast
  then show ?thesis
    by (cases res) (simp add: generator_run_def)
qed

lemma generator_run_line:
  assumes "uniform_int_in_range L" and "generator_run L n opens gen = Some r"
    and "gen_file r = Some out" and "l \<in> set (getline_all out)"
  shows "\<exists>t0 t. generator_line t0 t l \<and> 0 \<le> t"
proof -
  from generator_run_lines [OF assms(1-3)] obtain tls where
    gl: "generator_lines startTimestamp_init tls" and g: "getline_all out = map snd tls" by blast
  from assms(4) g obtain t where "(t, l) \<in> set tls" by auto
  from generator_lines_member [OF gl _ this] show ?thesis
    by (auto simp: startTimestamp_init_def)
qed

lemma tape_lib_in_range: "uniform_int_in_range tape_lib"
  unfolding uniform_int_in_range_def
proof (intro allI impI)
  fix a b :: int and g :: "nat list"
  assume ab: "a \<le> b"
  show "a \<le> fst (uniform_int tape_lib a b g) \<and> fst (uniform_int tape_lib a b g) \<le> b"
  proof (cases g)
    case Nil
    with ab show ?thesis by (simp add: tape_lib_def)
  next
    case (Cons r g')
    from ab have pos: "0 < b - a + 1" by simp
    have "0 \<le> int r mod (b - a + 1)" "int r mod (b - a + 1) < b - a + 1"
      using pos by (rule pos_mod_sign, rule pos_mod_bound)
    with Cons show ?thesis by (simp add: tape_lib_def)
  qed
qed


subsection \<open>A concrete run\<close>

lemma tape_uniform_int:
  "uniform_int tape_lib a b (r # g) = (a + int r mod (b - a + 1), g)"
  by (simp add: tape_lib_def)

lemma tape_uniform_real:
  "uniform_real_hundredths tape_lib a b (r # g) = (nat (100 * a) + r mod nat (100 * (b - a)), g)"
  by (simp add: tape_lib_def)

lemma tape_getRandomElement:
  "vec \<noteq> [] \<Longrightarrow> getRandomElement tape_lib vec (r # g) = Some (vec ! (r mod length vec), g)"
proof -
  assume ne: "vec \<noteq> []"
  then have pos: "0 < int (length vec)" by simp
  have m: "int r mod int (length vec) = int (r mod length vec)"
    by (simp add: zmod_int)
  have "r mod length vec < length vec" using ne by simp
  then show ?thesis
    using pos by (simp add: getRandomElement_def tape_uniform_int m)
qed

lemma tape_iteration_1:
  "loop_body tape_lib 1672531200 [2, 3, 0, 2, 4, 37, 4, 90, 12345, 0, 5, 5, 5, 7] =
     Some (1672531203,
           ''1672531203|10.0.0.5|user_alpha|TRADE_EXECUTE|FAILURE|42ms|Symbol:TSLA,Quantity:100,Price:223.45'' @ [newline],
           [0, 5, 5, 5, 7])"
  by (simp add: loop_body_def tape_uniform_int tape_uniform_real tape_getRandomElement
      pick_status_def write_details_def ip_addresses_def user_ids_def actions_def statuses_def
      trade_symbols_def show_int_def show_nat.simps digit_char_def show_fixed2_def)


lemma tape_iteration_2:
  "loop_body tape_lib 1672531203 [0, 5, 5, 5, 7] =
     Some (1672531204,
           ''1672531204|10.10.10.10|admin_zeta|FAILED_LOGIN|FAILURE|12ms|ErrorCode:401_UNAUTHORIZED'' @ [newline],
           [])"
  by (simp add: loop_body_def tape_uniform_int tape_uniform_real tape_getRandomElement
      pick_status_def write_details_def ip_addresses_def user_ids_def actions_def statuses_def
      trade_symbols_def show_int_def show_nat.simps digit_char_def show_fixed2_def)

lemma for_loop_twice:
  "for_loop L 2 t out g =
     (case loop_body L t g of
        None \<Rightarrow> None
      | Some (t1, x1, g1) \<Rightarrow>
          (case loop_body L t1 g1 of
             None \<Rightarrow> None
           | Some (t2, x2, g2) \<Rightarrow> Some (t2, (out @ x1) @ x2, g2)))"
  by (simp add: numeral_2_eq_2 split: option.splits)

lemma tape_run: "generator_run tape_lib 2 True tape_example = Some tape_result"
  by (simp add: generator_run_def startTimestamp_init_def for_loop_twice tape_iteration_1 tape_iteration_2
      show_int_def show_nat.simps digit_char_def outputFilename_def tape_example_def
      tape_result_def tape_line_1_def tape_line_2_def)

lemma tape_file: "gen_file tape_result = Some (tape_line_1 @ [newline] @ tape_line_2 @ [newline])"
  by (simp add: tape_result_def)

lemma tape_lines:
  "getline_all (tape_line_1 @ [newline] @ tape_line_2 @ [newline]) = [tape_line_1, tape_line_2]"
  by (simp add: getline_all.simps getline_def newline_def tape_line_1_def tape_line_2_def)

lemma tape_fields1:
  "split_on CHR ''|'' tape_line_1 =
     [''1672531203'', ''10.0.0.5'', ''user_alpha'', ''TRADE_EXECUTE'', ''FAILURE'', ''42ms'',
      ''Symbol:TSLA,Quantity:100,Price:223.45'']"
  by (simp add: tape_line_1_def)

lemma tape_fields2:
  "split_on CHR ''|'' tape_line_2 =
     [''1672531204'', ''10.10.10.10'', ''admin_zeta'', ''FAILED_LOGIN'', ''FAILURE'', ''12ms'',
      ''ErrorCode:401_UNAUTHORIZED'']"
  by (simp add: tape_line_2_def)

subsection \<open>The generated file\<close>

lemma strip_ms_suffix: "strip_ms (x @ ''ms'') = Some x"
  by (simp add: strip_ms_def)

lemma read_latency_show_nat: "read_latency (show_nat n @ ''ms'') = Some n"
  by (simp add: read_latency_def strip_ms_suffix parse_nat_show_nat)

text \<open>
  C1. Every line of the file a run of the generator writes splits on \<open>|\<close> into
  exactly 7 fields, in the order timestamp, IP address, user, action, status, latency
  with its \<open>ms\<close> suffix, details. The IP address, user, action and status come
  from their pools, the timestamp field reads back as the line's timestamp, and the
  details, the text after the sixth \<open>|\<close>, contain no \<open>|\<close>. The lines of the file
  are the lines \<open>std::getline\<close> yields from it. \<open>main\<close> is the run with
  \<open>n = numberOfLinesToGenerate\<close>.
\<close>

theorem generator_line_seven_fields:
  assumes "uniform_int_in_range L" and "generator_run L n opens gen = Some r"
    and "gen_file r = Some out" and "l \<in> set (getline_all out)"
  shows "length (split_on CHR ''|'' l) = 7 \<and>
         (\<exists>ts ip user act st latency det.
            l = show_int ts @ ''|'' @ ip @ ''|'' @ user @ ''|'' @ act @ ''|'' @ st @ ''|'' @
                show_int latency @ ''ms|'' @ det \<and>
            split_on CHR ''|'' l = [show_int ts, ip, user, act, st, show_int latency @ ''ms'', det] \<and>
            line_timestamp l = Some ts \<and>
            ip \<in> set ip_addresses \<and> user \<in> set user_ids \<and> act \<in> set actions \<and>
            st \<in> set statuses \<and> CHR ''|'' \<notin> set det)"
proof -
  from generator_run_line [OF assms] obtain t0 t where
    g: "generator_line t0 t l" and t: "0 \<le> t" by blast
  from generator_line_fields [OF g t] obtain ip user act st latency det where
    m: "ip \<in> set ip_addresses" "user \<in> set user_ids" "act \<in> set actions" "st \<in> set statuses"
    and d: "CHR ''|'' \<notin> set det"
    and l: "l = show_int t @ ''|'' @ ip @ ''|'' @ user @ ''|'' @ act @ ''|'' @ st @ ''|'' @
               show_int latency @ ''ms|'' @ det"
    and s: "split_on CHR ''|'' l = [show_int t, ip, user, act, st, show_int latency @ ''ms'', det]"
    by blast
  from s have "length (split_on CHR ''|'' l) = 7" by simp
  moreover from line_timestamp_generator_line [OF g t] m d l s
  have "\<exists>ts ip user act st latency det.
            l = show_int ts @ ''|'' @ ip @ ''|'' @ user @ ''|'' @ act @ ''|'' @ st @ ''|'' @
                show_int latency @ ''ms|'' @ det \<and>
            split_on CHR ''|'' l = [show_int ts, ip, user, act, st, show_int latency @ ''ms'', det] \<and>
            line_timestamp l = Some ts \<and>
            ip \<in> set ip_addresses \<and> user \<in> set user_ids \<and> act \<in> set actions \<and>
            st \<in> set statuses \<and> CHR ''|'' \<notin> set det"
    by blast
  ultimately show ?thesis by blast
qed

theorem generator_line_seven_fields_witness:
  "uniform_int_in_range tape_lib
   \<and> generator_run tape_lib 2 True tape_example = Some tape_result
   \<and> gen_file tape_result = Some (tape_line_1 @ [newline] @ tape_line_2 @ [newline])
   \<and> tape_line_1 \<in> set (getline_all (tape_line_1 @ [newline] @ tape_line_2 @ [newline]))
   \<and> length (split_on CHR ''|'' tape_line_1) = 7
   \<and> split_on CHR ''|'' tape_line_1 =
       [''1672531203'', ''10.0.0.5'', ''user_alpha'', ''TRADE_EXECUTE'', ''FAILURE'', ''42ms'',
        ''Symbol:TSLA,Quantity:100,Price:223.45'']"
proof -
  have m: "tape_line_1 \<in> set (getline_all (tape_line_1 @ [newline] @ tape_line_2 @ [newline]))"
    unfolding tape_lines by simp
  from generator_line_seven_fields [OF tape_lib_in_range tape_run tape_file m]
  have "length (split_on CHR ''|'' tape_line_1) = 7" by blast
  with tape_lib_in_range tape_run tape_file m tape_fields1 show ?thesis by blast
qed

text \<open>
  C5. The latency field of every line the generator writes is the decimal digits of a
  number from 5 to 250 immediately followed by \<open>ms\<close>: removing the suffix and
  reading the digits gives that number back.
\<close>

theorem generator_latency_format:
  assumes "uniform_int_in_range L" and "generator_run L n opens gen = Some r"
    and "gen_file r = Some out" and "l \<in> set (getline_all out)"
  shows "\<exists>latency. 5 \<le> latency \<and> latency \<le> 250 \<and>
           field 5 l = show_nat latency @ ''ms'' \<and>
           show_nat latency \<noteq> [] \<and> list_all is_digit (show_nat latency) \<and>
           read_latency (field 5 l) = Some latency"
proof -
  from generator_run_line [OF assms] obtain t0 t where
    g: "generator_line t0 t l" and t: "0 \<le> t" by blast
  from generator_line_fields [OF g t] obtain ip user act st latency det where
    lat: "5 \<le> latency" "latency \<le> 250"
    and s: "split_on CHR ''|'' l = [show_int t, ip, user, act, st, show_int latency @ ''ms'', det]"
    by blast
  from lat have sh: "show_int latency = show_nat (nat latency)"
    by (simp add: show_int_nonneg)
  from s sh have f: "field 5 l = show_nat (nat latency) @ ''ms''"
    by (simp add: field_def)
  have "5 \<le> nat latency \<and> nat latency \<le> 250 \<and>
           field 5 l = show_nat (nat latency) @ ''ms'' \<and>
           show_nat (nat latency) \<noteq> [] \<and> list_all is_digit (show_nat (nat latency)) \<and>
           read_latency (field 5 l) = Some (nat latency)"
  proof -
    from lat have "5 \<le> nat latency" "nat latency \<le> 250" by linarith+
    with f show ?thesis
      by (simp add: show_nat_not_Nil show_nat_digits read_latency_show_nat)
  qed
  then show ?thesis by blast
qed

theorem generator_latency_format_witness:
  "uniform_int_in_range tape_lib
   \<and> generator_run tape_lib 2 True tape_example = Some tape_result
   \<and> gen_file tape_result = Some (tape_line_1 @ [newline] @ tape_line_2 @ [newline])
   \<and> tape_line_1 \<in> set (getline_all (tape_line_1 @ [newline] @ tape_line_2 @ [newline]))
   \<and> field 5 tape_line_1 = ''42ms''
   \<and> (\<exists>latency. 5 \<le> latency \<and> latency \<le> 250 \<and> read_latency (field 5 tape_line_1) = Some latency)"
proof -
  have m: "tape_line_1 \<in> set (getline_all (tape_line_1 @ [newline] @ tape_line_2 @ [newline]))"
    unfolding tape_lines by simp
  have f: "field 5 tape_line_1 = ''42ms''"
    by (simp add: field_def tape_fields1)
  from generator_latency_format [OF tape_lib_in_range tape_run tape_file m]
  have "\<exists>latency. 5 \<le> latency \<and> latency \<le> 250 \<and> read_latency (field 5 tape_line_1) = Some latency"
    by blast
  with tape_lib_in_range tape_run tape_file m f show ?thesis by blast
qed

text \<open>
  C6. The status field of every line the generator writes is one of \<open>SUCCESS\<close>,
  \<open>FAILURE\<close>, \<open>PENDING\<close>, which are exactly the values of the pool
  \<open>statuses\<close>; on a line whose action is \<open>FAILED_LOGIN\<close> it is \<open>FAILURE\<close>.
\<close>

theorem generator_status_values:
  assumes "uniform_int_in_range L" and "generator_run L n opens gen = Some r"
    and "gen_file r = Some out" and "l \<in> set (getline_all out)"
  shows "field 4 l \<in> {''SUCCESS'', ''FAILURE'', ''PENDING''}
         \<and> set statuses = {''SUCCESS'', ''FAILURE'', ''PENDING''}
         \<and> (field 3 l = ''FAILED_LOGIN'' \<longrightarrow> field 4 l = ''FAILURE'')"
proof -
  from generator_run_line [OF assms] obtain t0 t where
    g: "generator_line t0 t l" and t: "0 \<le> t" by blast
  from generator_line_fields [OF g t] obtain ip user act st latency det where
    m: "st \<in> set statuses" and f: "act = ''FAILED_LOGIN'' \<longrightarrow> st = ''FAILURE''"
    and s: "split_on CHR ''|'' l = [show_int t, ip, user, act, st, show_int latency @ ''ms'', det]"
    by blast
  from s have f3: "field 3 l = act" and f4: "field 4 l = st"
    by (simp_all add: field_def)
  have pool: "set statuses = {''SUCCESS'', ''FAILURE'', ''PENDING''}"
    by (simp add: statuses_def)
  from m f show ?thesis
    unfolding f3 f4 pool by simp
qed

theorem generator_status_values_witness:
  "uniform_int_in_range tape_lib
   \<and> generator_run tape_lib 2 True tape_example = Some tape_result
   \<and> gen_file tape_result = Some (tape_line_1 @ [newline] @ tape_line_2 @ [newline])
   \<and> tape_line_2 \<in> set (getline_all (tape_line_1 @ [newline] @ tape_line_2 @ [newline]))
   \<and> field 3 tape_line_2 = ''FAILED_LOGIN''
   \<and> field 4 tape_line_2 = ''FAILURE''
   \<and> field 4 tape_line_2 \<in> {''SUCCESS'', ''FAILURE'', ''PENDING''}"
proof -
  have m: "tape_line_2 \<in> set (getline_all (tape_line_1 @ [newline] @ tape_line_2 @ [newline]))"
    unfolding tape_lines by simp
  have f3: "field 3 tape_line_2 = ''FAILED_LOGIN''"
    by (simp add: field_def tape_fields2)
  from generator_status_values [OF tape_lib_in_range tape_run tape_file m] f3
  have "field 4 tape_line_2 = ''FAILURE''"
    and "field 4 tape_line_2 \<in> {''SUCCESS'', ''FAILURE'', ''PENDING''}" by blast+
  with tape_lib_in_range tape_run tape_file m f3 show ?thesis by blast
qed

text \<open>
  C10. The timestamps read from the lines of a generated file, in file order, are
  strictly increasing: the first exceeds the start value 1672531200 by 1 to 5, and each
  later one exceeds the one before it by 1 to 5. There is one timestamp per iteration.
\<close>

theorem generator_timestamps_increase:
  assumes "uniform_int_in_range L" and "generator_run L n opens gen = Some r"
    and "gen_file r = Some out"
  shows "\<exists>ts. length ts = n \<and>
           map line_timestamp (getline_all out) = map Some ts \<and>
           steps_1_to_5 1672531200 ts \<and>
           sorted_wrt (<) (1672531200 # ts)"
proof -
  from generator_run_lines [OF assms] obtain tls where
    len: "length tls = n" and gl: "generator_lines startTimestamp_init tls"
    and g: "getline_all out = map snd tls" by blast
  have "map line_timestamp (getline_all out) = map Some (map fst tls)"
    unfolding g by (rule generator_lines_timestamps [OF gl]) (simp add: startTimestamp_init_def)
  moreover from generator_lines_steps [OF gl]
  have st: "steps_1_to_5 1672531200 (map fst tls)"
    by (simp add: startTimestamp_init_def)
  moreover from st have "sorted_wrt (<) (1672531200 # map fst tls)"
    by (rule steps_sorted)
  moreover from len have "length (map fst tls) = n" by simp
  ultimately show ?thesis by blast
qed

theorem generator_timestamps_increase_witness:
  "uniform_int_in_range tape_lib
   \<and> generator_run tape_lib 2 True tape_example = Some tape_result
   \<and> gen_file tape_result = Some (tape_line_1 @ [newline] @ tape_line_2 @ [newline])
   \<and> map line_timestamp (getline_all (tape_line_1 @ [newline] @ tape_line_2 @ [newline])) =
       [Some 1672531203, Some 1672531204]
   \<and> steps_1_to_5 1672531200 [1672531203, 1672531204]"
proof -
  have e: "map line_timestamp (getline_all (tape_line_1 @ [newline] @ tape_line_2 @ [newline])) =
       [Some 1672531203, Some 1672531204]"
    unfolding tape_lines
    by (simp add: line_timestamp_def field_def tape_fields1 tape_fields2 parse_nat_def
        is_digit_def digit_val_def)
  from generator_timestamps_increase [OF tape_lib_in_range tape_run tape_file]
  obtain ts where "map line_timestamp (getline_all (tape_line_1 @ [newline] @ tape_line_2 @ [newline])) = map Some ts"
    and s: "steps_1_to_5 1672531200 ts" by blast
  with e have "map Some ts = [Some 1672531203, Some 1672531204]" by simp
  then have "ts = [1672531203, 1672531204]" by auto
  with s have "steps_1_to_5 1672531200 [1672531203, 1672531204]" by simp
  with tape_lib_in_range tape_run tape_file e show ?thesis by blast
qed

subsection \<open>The range of the timestamps\<close>

lemma steps_upper:
  "steps_1_to_5 t0 ts \<Longrightarrow> t \<in> set ts \<Longrightarrow> t0 < t \<and> t \<le> t0 + 5 * int (length ts)"
proof (induction ts arbitrary: t0)
  case Nil
  then show ?case by simp
next
  case (Cons a ts)
  from Cons.prems(1) have a: "1 \<le> a - t0" "a - t0 \<le> 5" and s: "steps_1_to_5 a ts" by simp_all
  show ?case
  proof (cases "t = a")
    case True
    with a show ?thesis by simp
  next
    case False
    with Cons.prems(2) have "t \<in> set ts" by simp
    from Cons.IH [OF s this] a show ?thesis by simp
  qed
qed

text \<open>
  The variable \<open>startTimestamp\<close> moves up by at most 5 in each iteration, so in
  \<open>main\<close> it never leaves the range of a \<open>long long\<close>. A run whose file opens
  returns exit code 0 and has written one line per iteration; a run whose file does not
  open writes nothing but the error message and returns 1.
\<close>

lemma for_loop_timestamp_range:
  assumes "uniform_int_in_range L"
  shows "for_loop L k t0 out gen = Some (t, out', gen') \<Longrightarrow> t0 \<le> t \<and> t \<le> t0 + 5 * int k"
proof (induction k arbitrary: t0 out gen)
  case 0
  then show ?case by simp
next
  case (Suc k)
  from loop_body_line [OF assms, of t0 gen]
  obtain t1 l gen1 where b: "loop_body L t0 gen = Some (t1, l @ [newline], gen1)"
    and gl: "generator_line t0 t1 l" by blast
  from gl have s: "1 \<le> t1 - t0" "t1 - t0 \<le> 5" by (simp_all add: generator_line_def)
  from Suc.prems b have "for_loop L k t1 (out @ l @ [newline]) gen1 = Some (t, out', gen')"
    by simp
  from Suc.IH [OF this] s show ?case by simp
qed

lemma generator_main_timestamp_fits:
  assumes "uniform_int_in_range L"
    and "for_loop L numberOfLinesToGenerate startTimestamp_init [] gen = Some (t, out, gen')"
  shows "0 \<le> t \<and> t < 2 ^ 63"
  using for_loop_timestamp_range [OF assms]
  by (simp add: numberOfLinesToGenerate_def startTimestamp_init_def)

lemma generator_main_succeeds:
  assumes "uniform_int_in_range L"
  shows "\<exists>r out. generator_main L True gen = Some r \<and> gen_exit r = 0 \<and>
           gen_file r = Some out \<and> length (getline_all out) = numberOfLinesToGenerate"
proof -
  from generator_run_total [OF assms, of numberOfLinesToGenerate True gen]
  obtain r where r: "generator_run L numberOfLinesToGenerate True gen = Some r" by blast
  then obtain out where o: "gen_file r = Some out" and e: "gen_exit r = 0"
    by (auto simp: generator_run_def split: option.splits)
  from generator_run_lines [OF assms r o] have "length (getline_all out) = numberOfLinesToGenerate"
    by auto
  with r o e show ?thesis by (simp add: generator_main_def)
qed

lemma generator_main_cannot_open:
  "generator_main L False gen =
     Some \<lparr>gen_exit = 1, gen_file = None, gen_cout = [],
           gen_cerr = ''Error: Could not open file for writing: sample.log'' @ [newline]\<rparr>"
  by (simp add: generator_main_def generator_run_def outputFilename_def)

section \<open>Properties of the specified parser and aggregator\<close>

lemma split_limit_not_Nil: "split_limit k d s \<noteq> []"
  by (cases s) (auto simp: Let_def)

lemma length_split_limit:
  "length (split_limit k d s) = min (Suc k) (length (split_on d s))"
proof (induction s arbitrary: k)
  case Nil
  then show ?case by simp
next
  case (Cons c cs)
  have a: "length (tl (split_on d cs)) = length (split_on d cs) - 1" by simp
  have b: "length (tl (split_limit k d cs)) = length (split_limit k d cs) - 1" by simp
  have c: "0 < length (split_on d cs)" using split_on_not_Nil [of d cs] by simp
  have e: "0 < length (split_limit k d cs)" using split_limit_not_Nil [of k d cs] by simp
  show ?case
  proof (cases "c = d")
    case True
    show ?thesis
    proof (cases k)
      case 0
      with True Cons.IH [of 0] c e show ?thesis by (simp add: Let_def)
    next
      case (Suc j)
      with True Cons.IH [of j] show ?thesis by (simp add: Let_def)
    qed
  next
    case False
    with Cons.IH [of k] c e show ?thesis by (simp add: Let_def)
  qed
qed

text \<open>
  C8. A line that splits on \<open>|\<close> into fewer than 7 fields is parsed to the error
  \<open>MalformedFieldCount\<close>, which carries the line number given to \<open>parse\<close> and the
  line itself; the result is no record.
\<close>

theorem parse_too_few_fields:
  assumes "length (split_on CHR ''|'' line) < 7"
  shows "parse line n = Inl \<lparr>line_number = n, raw_line = line, kind = MalformedFieldCount\<rparr>
         \<and> (\<forall>r. parse line n \<noteq> Inr r)"
proof -
  from assms have "length (split_limit 6 CHR ''|'' line) < 7"
    by (simp add: length_split_limit)
  then show ?thesis by (simp add: parse_def)
qed

theorem parse_too_few_fields_witness:
  "length (split_on CHR ''|'' ''bad|line'') < 7
   \<and> parse ''bad|line'' 1 = Inl \<lparr>line_number = 1, raw_line = ''bad|line'', kind = MalformedFieldCount\<rparr>"
proof -
  have h: "length (split_on CHR ''|'' ''bad|line'') < 7" by simp
  from parse_too_few_fields [OF h, of 1] h show ?thesis by blast
qed

text \<open>
  C7. Scenario 1 of the specification: the line
  \<open>1672531200|10.0.0.5|user_alpha|LOGIN|SUCCESS|42ms|Details:N/A\<close> is parsed, at any
  line number, to the record with timestamp 1672531200, IP \<open>10.0.0.5\<close>, user
  \<open>user_alpha\<close>, action \<open>LOGIN\<close>, status \<open>SUCCESS\<close> and latency 42, whose
  details mapping has the single entry \<open>Details\<close> to \<open>N/A\<close>.
\<close>

theorem parse_scenario_1:
  "parse ''1672531200|10.0.0.5|user_alpha|LOGIN|SUCCESS|42ms|Details:N/A'' n =
     Inr \<lparr>timestamp = 1672531200, source_ip = ''10.0.0.5'', user_id = ''user_alpha'',
          action = ''LOGIN'', status = ''SUCCESS'', latency_ms = 42, details = ''Details:N/A''\<rparr>
   \<and> details_map \<lparr>timestamp = 1672531200, source_ip = ''10.0.0.5'', user_id = ''user_alpha'',
          action = ''LOGIN'', status = ''SUCCESS'', latency_ms = 42, details = ''Details:N/A''\<rparr>
       = [''Details'' \<mapsto> ''N/A'']"
proof -
  have s: "split_limit 6 CHR ''|'' ''1672531200|10.0.0.5|user_alpha|LOGIN|SUCCESS|42ms|Details:N/A'' =
      [''1672531200'', ''10.0.0.5'', ''user_alpha'', ''LOGIN'', ''SUCCESS'', ''42ms'', ''Details:N/A'']"
    by simp
  have t: "parse_nat ''1672531200'' = Some 1672531200"
    by (simp add: parse_nat_def is_digit_def digit_val_def)
  have l: "read_latency ''42ms'' = Some 42"
    by (simp add: read_latency_def strip_ms_def parse_nat_def is_digit_def digit_val_def)
  have d: "detail_pair ''Details:N/A'' = (''Details'', ''N/A'')"
    by (simp add: detail_pair_def)
  show ?thesis
    by (simp add: parse_def s t l details_map_def d)
qed

lemma ingest_counters:
  "total_lines (ingest s item) = total_lines s + 1 \<and>
   records_parsed (ingest s item) + parse_errors (ingest s item) =
     records_parsed s + parse_errors s + 1"
  by (cases item) (simp_all add: ingest_def records_parsed_def)

lemma foldl_ingest_counters:
  "total_lines (foldl ingest s items) = total_lines s + length items \<and>
   records_parsed (foldl ingest s items) + parse_errors (foldl ingest s items) =
     records_parsed s + parse_errors s + length items"
proof (induction items arbitrary: s)
  case Nil
  then show ?case by simp
next
  case (Cons item items)
  from Cons.IH [of "ingest s item"] ingest_counters [of s item]
  show ?case by simp
qed

text \<open>
  C9. After any sequence of \<open>ingest\<close> calls on a fresh aggregator, whatever mix of
  records and parse errors it holds, the snapshot's total of lines seen is the number
  of calls, and so is the sum of its records parsed and its parse errors.
\<close>

theorem aggregator_counts_every_item:
  "total_lines (snapshot (foldl ingest empty_aggregator items)) = length items
   \<and> records_parsed (snapshot (foldl ingest empty_aggregator items)) +
       parse_errors (snapshot (foldl ingest empty_aggregator items)) = length items"
  using foldl_ingest_counters [of empty_aggregator items]
  by (simp add: snapshot_def empty_aggregator_def records_parsed_def)

text \<open>
  The generator's lines are in the parser's format: every line of a generated file is
  parsed to a record, whose fields are the fields of the line.
\<close>

lemma split_limit_all:
  "length (split_on d s) \<le> Suc k \<Longrightarrow> split_limit k d s = split_on d s"
proof (induction s arbitrary: k)
  case Nil
  then show ?case by simp
next
  case (Cons c cs)
  show ?case
  proof (cases "c = d")
    case True
    with Cons.prems have le: "length (split_on d cs) \<le> k" by (simp add: Let_def)
    have "0 < length (split_on d cs)" using split_on_not_Nil [of d cs] by simp
    with le obtain j where k: "k = Suc j" by (cases k) auto
    with le Cons.IH [of j] True show ?thesis by (simp add: Let_def)
  next
    case False
    have "0 < length (split_on d cs)" using split_on_not_Nil [of d cs] by simp
    with Cons.prems False have "length (split_on d cs) \<le> Suc k" by (simp add: Let_def)
    from Cons.IH [OF this] False show ?thesis by (simp add: Let_def)
  qed
qed

lemma parse_generated_line:
  assumes "uniform_int_in_range L" and "generator_run L n opens gen = Some r"
    and "gen_file r = Some out" and "l \<in> set (getline_all out)"
  shows "\<exists>rec. parse l k = Inr rec \<and> line_timestamp l = Some (int (timestamp rec)) \<and>
           source_ip rec = field 1 l \<and> user_id rec = field 2 l \<and> action rec = field 3 l \<and>
           status rec = field 4 l \<and> read_latency (field 5 l) = Some (latency_ms rec) \<and>
           details rec = field 6 l"
proof -
  from generator_run_line [OF assms] obtain t0 t where
    g: "generator_line t0 t l" and t: "0 \<le> t" by blast
  from generator_line_fields [OF g t] obtain ip user act st latency det where
    lat: "5 \<le> latency" "latency \<le> 250"
    and s: "split_on CHR ''|'' l = [show_int t, ip, user, act, st, show_int latency @ ''ms'', det]"
    by blast
  from s have "length (split_on CHR ''|'' l) \<le> Suc 6" by simp
  then have sl: "split_limit 6 CHR ''|'' l = [show_int t, ip, user, act, st, show_int latency @ ''ms'', det]"
    using s by (simp add: split_limit_all)
  from t have st: "show_int t = show_nat (nat t)" by (simp add: show_int_nonneg)
  from lat have sla: "show_int latency = show_nat (nat latency)" by (simp add: show_int_nonneg)
  have p: "parse l k = Inr \<lparr>timestamp = nat t, source_ip = ip, user_id = user, action = act,
      status = st, latency_ms = nat latency, details = det\<rparr>"
    by (simp add: parse_def sl st sla parse_nat_show_nat read_latency_show_nat)
  have lt: "line_timestamp l = Some t"
    by (rule line_timestamp_generator_line [OF g t])
  show ?thesis
    using p lt t s sla by (simp add: field_def read_latency_show_nat)
qed

end
